theory Spec2Isabelle
  imports Complex_Main "HOL-Library.Log_Nat"
begin

section \<open>Errors raised by the Python runtime\<close>

text \<open>
  Every function of \<open>main.py\<close> is modelled as a HOL function. A function that can
  raise returns \<open>error + 'a\<close>, with \<open>Inl\<close> carrying the exception that leaves it.
\<close>

datatype error = ZeroDivisionError | OverflowError | ValueError | KeyError

section \<open>Strings: \<open>normalize_address\<close>\<close>







section \<open>Numbers\<close>

text \<open>
  A Python \<open>float\<close> is an IEEE 754 binary64 value. It is modelled by its exact
  rational value, or one of the three special values. The sign of a zero is not
  kept: no function of this module can tell \<open>-0.0\<close> from \<open>0.0\<close>.
\<close>

datatype pyfloat = Finite rat | PInf | NInf | NaN

text \<open>A number is a Python \<open>int\<close> (unbounded) or a \<open>float\<close>.\<close>

datatype pynum = PyInt int | PyFloat pyfloat

text \<open>\<open>ilog2 a\<close> is the integer \<open>e\<close> with \<open>2^e \<le> a < 2^(e+1)\<close>, for \<open>a > 0\<close>.\<close>

definition ilog2 :: "rat \<Rightarrow> int" where
  "ilog2 a = (if 1 \<le> a then bitlen \<lfloor>a\<rfloor> - 1 else - bitlen (\<lceil>1 / a\<rceil> - 1))"

text \<open>Rounding a non-negative rational to the nearest integer, ties to the even one.\<close>

definition round_half_even :: "rat \<Rightarrow> int" where
  "round_half_even m =
     (let f = \<lfloor>m\<rfloor>; d = m - of_int f
      in if d < 1 / 2 then f
         else if 1 / 2 < d then f + 1
         else if even f then f
         else f + 1)"

text \<open>
  The magnitude \<open>a > 0\<close> rounded to 53 significant bits: the exponent of the
  leading bit is not taken below \<open>-1022\<close>, so that the subnormal numbers are the
  multiples of \<open>2^-1074\<close>.
\<close>

definition rounded_abs :: "rat \<Rightarrow> rat" where
  "rounded_abs a =
     (let e = max (ilog2 a) (- 1022); u = 2 powi (e - 52)
      in of_int (round_half_even (a / u)) * u)"

text \<open>
  \<open>round_double q\<close> is the binary64 value nearest to \<open>q\<close> (ties to even), and an
  infinity once the rounded magnitude reaches \<open>2^1024\<close>.
\<close>

definition round_double :: "rat \<Rightarrow> pyfloat" where
  "round_double q =
     (if q = 0 then Finite 0
      else let r = rounded_abs \<bar>q\<bar>
           in if 2 ^ 1024 \<le> r then (if 0 < q then PInf else NInf)
              else Finite (if 0 < q then r else - r))"

text \<open>
  The least magnitude that rounds to an infinity: the midpoint between the largest
  double and \<open>2^1024\<close>.
\<close>

definition overflow_threshold :: rat where
  "overflow_threshold = 2 ^ 1024 - 2 ^ 970"

text \<open>A decimal literal such as \<open>0.00005\<close> denotes the double nearest to it.\<close>

definition float_lit :: "int \<Rightarrow> int \<Rightarrow> pyfloat" where
  "float_lit num den = round_double (of_int num / of_int den)"

text \<open>
  Converting an \<open>int\<close> to \<open>float\<close> rounds to nearest and raises \<open>OverflowError\<close>
  when the integer is too large for a double.
\<close>

definition float_of_int :: "int \<Rightarrow> error + pyfloat" where
  "float_of_int n =
     (case round_double (of_int n) of
        Finite q \<Rightarrow> Inr (Finite q)
      | _ \<Rightarrow> Inl OverflowError)"

text \<open>\<open>int / int\<close>: the correctly rounded quotient.\<close>

definition int_truediv :: "int \<Rightarrow> int \<Rightarrow> error + pyfloat" where
  "int_truediv a b =
     (if b = 0 then Inl ZeroDivisionError
      else case round_double (of_int a / of_int b) of
             Finite q \<Rightarrow> Inr (Finite q)
           | _ \<Rightarrow> Inl OverflowError)"

fun float_neg :: "pyfloat \<Rightarrow> pyfloat" where
  "float_neg (Finite x) = Finite (- x)"
| "float_neg PInf = NInf"
| "float_neg NInf = PInf"
| "float_neg NaN = NaN"

text \<open>\<open>float / float\<close>: a zero divisor raises, everything else follows IEEE 754.\<close>

fun float_truediv :: "pyfloat \<Rightarrow> pyfloat \<Rightarrow> error + pyfloat" where
  "float_truediv a (Finite y) =
     (if y = 0 then Inl ZeroDivisionError
      else case a of
             Finite x \<Rightarrow> Inr (round_double (x / y))
           | NaN \<Rightarrow> Inr NaN
           | _ \<Rightarrow> Inr (if 0 < y then a else float_neg a))"
| "float_truediv (Finite x) PInf = Inr (Finite 0)"
| "float_truediv (Finite x) NInf = Inr (Finite 0)"
| "float_truediv a b = Inr NaN"

text \<open>\<open>float * float\<close>, following IEEE 754: zero times infinity is not a number.\<close>

fun float_mul :: "pyfloat \<Rightarrow> pyfloat \<Rightarrow> pyfloat" where
  "float_mul (Finite x) (Finite y) = round_double (x * y)"
| "float_mul NaN b = NaN"
| "float_mul a NaN = NaN"
| "float_mul (Finite x) b = (if x = 0 then NaN else if 0 < x then b else float_neg b)"
| "float_mul a (Finite y) = (if y = 0 then NaN else if 0 < y then a else float_neg a)"
| "float_mul PInf b = b"
| "float_mul NInf b = float_neg b"

text \<open>Comparisons: every comparison with \<open>NaN\<close> is false.\<close>

fun float_le :: "pyfloat \<Rightarrow> pyfloat \<Rightarrow> bool" where
  "float_le NaN b = False"
| "float_le a NaN = False"
| "float_le NInf b = True"
| "float_le a PInf = True"
| "float_le PInf b = False"
| "float_le a NInf = False"
| "float_le (Finite x) (Finite y) = (x \<le> y)"

fun float_lt :: "pyfloat \<Rightarrow> pyfloat \<Rightarrow> bool" where
  "float_lt NaN b = False"
| "float_lt a NaN = False"
| "float_lt PInf b = False"
| "float_lt a NInf = False"
| "float_lt NInf b = True"
| "float_lt a PInf = True"
| "float_lt (Finite x) (Finite y) = (x < y)"

definition float_ge :: "pyfloat \<Rightarrow> pyfloat \<Rightarrow> bool" where
  "float_ge a b = float_le b a"

definition float_gt :: "pyfloat \<Rightarrow> pyfloat \<Rightarrow> bool" where
  "float_gt a b = float_lt b a"

text \<open>
  \<open>int(x)\<close> for a float truncates toward zero; an infinity raises
  \<open>OverflowError\<close> and a NaN raises \<open>ValueError\<close>.
\<close>

definition truncate :: "rat \<Rightarrow> int" where
  "truncate q = (if 0 \<le> q then \<lfloor>q\<rfloor> else \<lceil>q\<rceil>)"

fun int_of_float :: "pyfloat \<Rightarrow> error + int" where
  "int_of_float (Finite q) = Inr (truncate q)"
| "int_of_float NaN = Inl ValueError"
| "int_of_float f = Inl OverflowError"

text \<open>\<open>float.is_integer()\<close>: false for the infinities and for NaN.\<close>

fun is_integer :: "pyfloat \<Rightarrow> bool" where
  "is_integer (Finite q) = (q = of_int \<lfloor>q\<rfloor>)"
| "is_integer f = False"

section \<open>Module constants\<close>

definition BTC_TO_SATS :: int where
  "BTC_TO_SATS = 100000000"

section \<open>\<open>tx_priority\<close>\<close>

text \<open>
  \<open>fee_btc / size_bytes\<close> with an integer size: an integer fee is divided as
  \<open>int / int\<close>; for a float fee the size is converted to \<open>float\<close> first (which
  can overflow) and the floats are divided.
\<close>

fun py_truediv :: "pynum \<Rightarrow> int \<Rightarrow> error + pyfloat" where
  "py_truediv (PyInt a) b = int_truediv a b"
| "py_truediv (PyFloat f) b =
     (case float_of_int b of
        Inl e \<Rightarrow> Inl e
      | Inr d \<Rightarrow> float_truediv f d)"

definition tx_priority :: "int \<Rightarrow> pynum \<Rightarrow> error + string" where
  "tx_priority size_bytes fee_btc =
     (case py_truediv fee_btc size_bytes of
        Inl e \<Rightarrow> Inl e
      | Inr fee_rate \<Rightarrow>
          Inr (if float_ge fee_rate (float_lit 5 100000) then ''high''
               else if float_ge fee_rate (float_lit 1 100000) then ''medium''
               else ''low''))"

section \<open>\<open>find_high_fee\<close>\<close>

text \<open>
  \<open>fee > 0.005\<close>: Python compares an \<open>int\<close> with a \<open>float\<close> by their exact
  values.
\<close>

fun py_gt_float :: "pynum \<Rightarrow> pyfloat \<Rightarrow> bool" where
  "py_gt_float (PyInt n) c = float_gt (Finite (of_int n)) c"
| "py_gt_float (PyFloat f) c = float_gt f c"

text \<open>The loop over \<open>enumerate(fee_list)\<close>, leaving at the first match.\<close>

fun find_high_fee_loop :: "(nat \<times> pynum) list \<Rightarrow> (nat \<times> pynum) option" where
  "find_high_fee_loop [] = None"
| "find_high_fee_loop ((index, fee) # rest) =
     (if py_gt_float fee (float_lit 5 1000) then Some (index, fee)
      else find_high_fee_loop rest)"

definition find_high_fee :: "pynum list \<Rightarrow> (nat \<times> pynum) option" where
  "find_high_fee fee_list = find_high_fee_loop (enumerate 0 fee_list)"

section \<open>\<open>calculate_sats\<close>\<close>

text \<open>
  \<open>int(btc * BTC_TO_SATS)\<close> for a float \<open>btc\<close>: the constant is converted to
  \<open>float\<close>, the product is a float product, and \<open>int\<close> truncates it.
\<close>

definition calculate_sats :: "pyfloat \<Rightarrow> error + int" where
  "calculate_sats btc =
     (case float_of_int BTC_TO_SATS of
        Inl e \<Rightarrow> Inl e
      | Inr c \<Rightarrow> int_of_float (float_mul btc c))"

section \<open>\<open>generate_address\<close>\<close>






section \<open>\<open>validate_block_height\<close>\<close>

datatype height_arg = HInt int | HFloat pyfloat | HStr string

definition msg_must_be_integer :: string where
  "msg_must_be_integer = ''Block height must be an integer''"

definition msg_negative :: string where
  "msg_negative = ''Block height cannot be negative''"

definition msg_unrealistic :: string where
  "msg_unrealistic = ''Block height seems unrealistic''"

definition msg_valid :: string where
  "msg_valid = ''Valid block height''"

definition check_height_int :: "int \<Rightarrow> bool \<times> string" where
  "check_height_int height_int =
     (if height_int < 0 then (False, msg_negative)
      else if height_int > 800000 then (False, msg_unrealistic)
      else (True, msg_valid))"

text \<open>
  The body of the \<open>try\<close> block for an argument that is not a string, with the
  exceptions it can raise: \<open>int(height)\<close> is the identity on an \<open>int\<close>.
\<close>

fun validate_try :: "pynum \<Rightarrow> error + (bool \<times> string)" where
  "validate_try (PyFloat f) =
     (if \<not> is_integer f then Inr (False, msg_must_be_integer)
      else case int_of_float f of
             Inl e \<Rightarrow> Inl e
           | Inr height_int \<Rightarrow> Inr (check_height_int height_int))"
| "validate_try (PyInt n) = Inr (check_height_int n)"

text \<open>\<open>except ValueError\<close> catches that exception only; any other one leaves the function.\<close>

fun except_ValueError :: "error + (bool \<times> string) \<Rightarrow> error + (bool \<times> string)" where
  "except_ValueError (Inl ValueError) = Inr (False, msg_must_be_integer)"
| "except_ValueError r = r"

text \<open>The test for a string comes first, before the \<open>try\<close> block.\<close>

fun validate_block_height :: "height_arg \<Rightarrow> error + (bool \<times> string)" where
  "validate_block_height (HStr s) = Inr (False, msg_must_be_integer)"
| "validate_block_height (HInt n) = except_ValueError (validate_try (PyInt n))"
| "validate_block_height (HFloat f) = except_ValueError (validate_try (PyFloat f))"

section \<open>\<open>halving_schedule\<close>\<close>

text \<open>
  \<open>2 ** halvings\<close> is an \<open>int\<close> for a non-negative exponent. For a negative
  exponent Python converts both operands to \<open>float\<close> (an exponent too large for a
  float raises \<open>OverflowError\<close>) and computes the power as a float: a power of
  two, or \<open>0.0\<close> once it falls below the smallest subnormal number.
\<close>

definition pow2 :: "int \<Rightarrow> error + pynum" where
  "pow2 n =
     (if 0 \<le> n then Inr (PyInt (2 ^ nat n))
      else case float_of_int n of
             Inl e \<Rightarrow> Inl e
           | Inr x \<Rightarrow> Inr (PyFloat (round_double (2 powi n))))"

text \<open>
  Floor division of floats. A zero divisor raises. The quotient of two finite floats
  is the floor of the exact quotient, rounded to a double; it is exact for the
  divisors that occur here, which are powers of two.
\<close>

fun float_floordiv :: "pyfloat \<Rightarrow> pyfloat \<Rightarrow> error + pyfloat" where
  "float_floordiv a (Finite y) =
     (if y = 0 then Inl ZeroDivisionError
      else case a of
             Finite x \<Rightarrow> Inr (round_double (of_int \<lfloor>x / y\<rfloor>))
           | _ \<Rightarrow> Inr NaN)"
| "float_floordiv (Finite x) PInf = Inr (Finite (if 0 \<le> x then 0 else - 1))"
| "float_floordiv (Finite x) NInf = Inr (Finite (if x \<le> 0 then 0 else - 1))"
| "float_floordiv a b = Inr NaN"

text \<open>\<open>a // d\<close> for an integer \<open>a\<close>: integer floor division, or float floor division.\<close>

fun py_floordiv :: "int \<Rightarrow> pynum \<Rightarrow> error + pynum" where
  "py_floordiv a (PyInt d) =
     (if d = 0 then Inl ZeroDivisionError else Inr (PyInt (a div d)))"
| "py_floordiv a (PyFloat f) =
     (case float_of_int a of
        Inl e \<Rightarrow> Inl e
      | Inr x \<Rightarrow>
          (case float_floordiv x f of
             Inl e \<Rightarrow> Inl e
           | Inr r \<Rightarrow> Inr (PyFloat r)))"

definition base_reward :: int where
  "base_reward = 50 * BTC_TO_SATS"

definition halving_interval :: int where
  "halving_interval = 210000"

text \<open>The loop over \<open>blocks\<close>; \<open>result\<close> is the dictionary built so far.\<close>

fun halving_loop :: "(int \<rightharpoonup> pynum) \<Rightarrow> int list \<Rightarrow> error + (int \<rightharpoonup> pynum)" where
  "halving_loop result [] = Inr result"
| "halving_loop result (block # rest) =
     (let halvings = block div halving_interval
      in case pow2 halvings of
           Inl e \<Rightarrow> Inl e
         | Inr divisor \<Rightarrow>
             (case py_floordiv base_reward divisor of
                Inl e \<Rightarrow> Inl e
              | Inr reward \<Rightarrow> halving_loop (result(block \<mapsto> reward)) rest))"

definition halving_schedule :: "int list \<Rightarrow> error + (int \<rightharpoonup> pynum)" where
  "halving_schedule blocks = halving_loop Map.empty blocks"

section \<open>\<open>find_utxo_with_min_value\<close>\<close>

text \<open>A UTXO is a dictionary from field names to integers.\<close>

type_synonym utxo = "string \<rightharpoonup> int"

text \<open>\<open>utxo['value']\<close>: a missing key raises \<open>KeyError\<close>.\<close>

definition get_value :: "utxo \<Rightarrow> error + int" where
  "get_value u = (case u ''value'' of None \<Rightarrow> Inl KeyError | Some v \<Rightarrow> Inr v)"

text \<open>The list comprehension \<open>[utxo for utxo in utxos if utxo['value'] >= target]\<close>.\<close>

fun valid_utxos :: "utxo list \<Rightarrow> int \<Rightarrow> error + utxo list" where
  "valid_utxos [] target = Inr []"
| "valid_utxos (u # rest) target =
     (case get_value u of
        Inl e \<Rightarrow> Inl e
      | Inr v \<Rightarrow>
          (case valid_utxos rest target of
             Inl e \<Rightarrow> Inl e
           | Inr vs \<Rightarrow> Inr (if v \<ge> target then u # vs else vs)))"

text \<open>
  \<open>min(xs, key=lambda x: x['value'])\<close>: the running minimum is replaced only by an
  item whose key is strictly smaller, so the first of several minimal items is kept.
  \<open>min\<close> of an empty list raises \<open>ValueError\<close>.
\<close>

fun min_loop :: "utxo \<Rightarrow> int \<Rightarrow> utxo list \<Rightarrow> error + utxo" where
  "min_loop best best_key [] = Inr best"
| "min_loop best best_key (u # rest) =
     (case get_value u of
        Inl e \<Rightarrow> Inl e
      | Inr v \<Rightarrow> if v < best_key then min_loop u v rest else min_loop best best_key rest)"

fun min_by_value :: "utxo list \<Rightarrow> error + utxo" where
  "min_by_value [] = Inl ValueError"
| "min_by_value (u # rest) =
     (case get_value u of
        Inl e \<Rightarrow> Inl e
      | Inr v \<Rightarrow> min_loop u v rest)"

definition find_utxo_with_min_value :: "utxo list \<Rightarrow> int \<Rightarrow> error + utxo" where
  "find_utxo_with_min_value utxos target =
     (case valid_utxos utxos target of
        Inl e \<Rightarrow> Inl e
      | Inr valid \<Rightarrow> if valid = [] then Inr Map.empty else min_by_value valid)"

section \<open>Properties of \<open>normalize_address\<close>\<close>











section \<open>Properties of the rounding to double\<close>

lemma bitlen_eqI:
  "0 < k \<Longrightarrow> 2 ^ (nat k - 1) \<le> m \<Longrightarrow> m < 2 ^ nat k \<Longrightarrow> bitlen m = k"
  by (intro antisym) (auto simp: bitlen_le_iff_power bitlen_ge_iff_power)

lemma powi_neg_less_one: "e < 0 \<Longrightarrow> (2::rat) powi e < 1"
  by (metis neg_less_iff_less neg_numeral_less_neg_one_iff power_int_0_right
    power_int_strict_increasing semiring_norm(85))

lemma powi_nonneg_ge_one: "0 \<le> e \<Longrightarrow> (1::rat) \<le> 2 powi e"
  by simp

lemma powi_minus_nat: "(2::rat) powi (- int k) = 1 / 2 ^ k"
  by (simp add: power_int_minus_divide)

lemma ilog2_eqI:
  assumes lo: "2 powi e \<le> a" and hi: "a < 2 powi (e + 1)"
  shows "ilog2 a = e"
proof (cases "1 \<le> a")
  case True
  have "\<not> e + 1 \<le> 0"
  proof
    assume "e + 1 \<le> 0"
    then have "(2::rat) powi (e + 1) \<le> 1"
      using powi_neg_less_one [of "e + 1"] by (cases "e + 1 = 0") auto
    with True hi show False by simp
  qed
  then have e: "0 \<le> e" by simp
  have lo': "(2::rat) ^ nat e \<le> a" using lo e by (simp add: power_int_def)
  have hi': "a < (2::rat) ^ nat (e + 1)" using hi e by (simp add: power_int_def)
  have "of_int (2 ^ nat e) \<le> a" using lo' by simp
  then have 1: "2 ^ nat e \<le> \<lfloor>a\<rfloor>" by (simp only: le_floor_iff)
  have "a < of_int (2 ^ nat (e + 1))" using hi' by simp
  then have 2: "\<lfloor>a\<rfloor> < 2 ^ nat (e + 1)" by (simp only: floor_less_iff)
  have "bitlen \<lfloor>a\<rfloor> = e + 1"
    using e 1 2 by (intro bitlen_eqI) (simp_all add: nat_add_distrib)
  with True show ?thesis by (simp add: ilog2_def)
next
  case False
  have "(0::rat) < 2 powi e" by simp
  then have apos: "0 < a" using lo by (rule less_le_trans)
  have "\<not> 0 \<le> e"
  proof
    assume "0 \<le> e"
    then have "(1::rat) \<le> 2 powi e" by (rule powi_nonneg_ge_one)
    then have "1 \<le> a" using lo by (rule order_trans)
    with False show False ..
  qed
  then have e: "e < 0" by simp
  define k where "k = nat (- e)"
  have k: "0 < k" "e = - int k" "e + 1 = - int (k - 1)" using e by (simp_all add: k_def)
  have lo': "1 / 2 ^ k \<le> a" using lo unfolding k(2) powi_minus_nat .
  have hi': "a < 1 / 2 ^ (k - 1)" using hi unfolding k(3) powi_minus_nat .
  have xle: "1 / a \<le> 2 ^ k" using lo' apos by (simp add: field_simps)
  have xgt: "2 ^ (k - 1) < 1 / a" using hi' apos by (simp add: field_simps)
  have "1 / a \<le> of_int (2 ^ k)" using xle by simp
  then have 1: "\<lceil>1 / a\<rceil> \<le> 2 ^ k" by (simp only: ceiling_le_iff)
  have "of_int (2 ^ (k - 1)) < 1 / a" using xgt by simp
  then have 2: "2 ^ (k - 1) < \<lceil>1 / a\<rceil>" by (simp only: less_ceiling_iff)
  have "bitlen (\<lceil>1 / a\<rceil> - 1) = int k"
    using k 1 2 by (intro bitlen_eqI) simp_all
  with False k show ?thesis by (simp add: ilog2_def)
qed

lemma floor_rat_numeral_div:
  "\<lfloor>(numeral a :: rat) / numeral b\<rfloor> = numeral a div numeral b"
  using floor_divide_of_int_eq [of "numeral a" "numeral b", where ?'a = rat] by simp

lemma floor_rat_one_div:
  "\<lfloor>(1 :: rat) / numeral b\<rfloor> = 1 div numeral b"
  using floor_divide_of_int_eq [of 1 "numeral b", where ?'a = rat] by simp

text \<open>
  Rounding a positive rational whose binary exponent is known. The literals of the
  module are evaluated with this rule.
\<close>

lemma round_double_pos:
  assumes "2 powi e \<le> q" and "q < 2 powi (e + 1)" and "- 1022 \<le> e"
  shows "round_double q =
     (let r = of_int (round_half_even (q / 2 powi (e - 52))) * 2 powi (e - 52)
      in if 2 ^ 1024 \<le> r then PInf else Finite r)"
proof -
  have "(0::rat) < 2 powi e" by simp
  then have "0 < q" using assms(1) by (rule less_le_trans)
  moreover have "ilog2 q = e" using assms(1,2) by (rule ilog2_eqI)
  ultimately show ?thesis using assms(3)
    by (simp add: round_double_def rounded_abs_def Let_def max_def)
qed

text \<open>
  When rounding overflows: the result is finite exactly for magnitudes below
  \<open>2^1024 - 2^970\<close>, the midpoint between the largest double and \<open>2^1024\<close>.
\<close>

lemma ilog2_bounds:
  assumes "0 < a"
  shows "2 powi (ilog2 a) \<le> a \<and> a < 2 powi (ilog2 a + 1)"
proof (cases "1 \<le> a")
  case True
  define n where "n = \<lfloor>a\<rfloor>"
  have n: "0 < n" using True by (simp add: n_def)
  define e where "e = bitlen n - 1"
  from n have e0: "0 \<le> e" by (simp add: e_def bitlen_alt_def)
  from bitlen_bounds [OF n] have b: "2 ^ nat e \<le> n" "n < 2 ^ nat (e + 1)"
    by (simp_all add: e_def)
  have il: "ilog2 a = e" using True by (simp add: ilog2_def e_def n_def)
  have "(of_int (2 ^ nat e) :: rat) \<le> of_int n" using b(1) by (simp only: of_int_le_iff)
  also have "\<dots> \<le> a" by (simp add: n_def)
  finally have lo: "(2::rat) ^ nat e \<le> a" by simp
  have "n + 1 \<le> 2 ^ nat (e + 1)" using b(2) by simp
  then have "(of_int (n + 1) :: rat) \<le> of_int (2 ^ nat (e + 1))" by (simp only: of_int_le_iff)
  moreover have "a < of_int (n + 1)" using floor_correct [of a] by (simp add: n_def)
  ultimately have hi: "a < (2::rat) ^ nat (e + 1)" by simp
  show ?thesis using lo hi e0 by (simp add: il power_int_def)
next
  case False
  define c where "c = \<lceil>1 / a\<rceil>"
  have "1 < 1 / a" using False assms by (simp add: field_simps)
  then have c: "1 < c" by (simp add: c_def less_ceiling_iff)
  define k where "k = nat (bitlen (c - 1))"
  from c have k0: "0 < bitlen (c - 1)" by (simp add: bitlen_alt_def)
  then have kk: "bitlen (c - 1) = int k" "0 < k" by (simp_all add: k_def)
  from c have "0 < c - 1" by simp
  from bitlen_bounds [OF this] have b: "2 ^ (k - 1) \<le> c - 1" "c - 1 < 2 ^ k"
    using kk by (simp_all add: nat_diff_distrib)
  have il: "ilog2 a = - int k" using False kk(1) by (simp add: ilog2_def c_def)
  have il1: "ilog2 a + 1 = - int (k - 1)" using kk il by simp
  have "1 / a \<le> of_int c" by (simp add: c_def)
  also have "(of_int c :: rat) \<le> of_int (2 ^ k)" using b(2) by (simp only: of_int_le_iff zle_diff1_eq [symmetric])
  finally have "1 / a \<le> 2 ^ k" by simp
  then have lo: "1 / 2 ^ k \<le> a" using assms by (simp add: field_simps)
  have "(of_int (2 ^ (k - 1)) :: rat) \<le> of_int (c - 1)" using b(1) by (simp only: of_int_le_iff)
  also have "(of_int (c - 1) :: rat) < 1 / a"
    using ceiling_correct [of "1 / a"] by (simp add: c_def)
  finally have "2 ^ (k - 1) < 1 / a" by simp
  then have hi: "a < 1 / 2 ^ (k - 1)" using assms by (simp add: field_simps)
  show ?thesis unfolding il1 unfolding il powi_minus_nat using lo hi by simp
qed

lemma rne_le: "m \<le> of_int N \<Longrightarrow> round_half_even m \<le> N"
proof -
  assume m: "m \<le> of_int N"
  then have f: "\<lfloor>m\<rfloor> \<le> N" by (simp add: floor_le_iff)
  show ?thesis
  proof (cases "\<lfloor>m\<rfloor> = N")
    case True
    then have "m - of_int \<lfloor>m\<rfloor> \<le> 0" using m by simp
    then show ?thesis using True by (simp add: round_half_even_def Let_def)
  next
    case False
    with f have "\<lfloor>m\<rfloor> + 1 \<le> N" by simp
    then show ?thesis by (simp add: round_half_even_def Let_def)
  qed
qed

lemma rne_ge: "of_int N \<le> m \<Longrightarrow> N \<le> round_half_even m"
proof -
  assume "of_int N \<le> m"
  then have "N \<le> \<lfloor>m\<rfloor>" by (simp add: le_floor_iff)
  then show ?thesis by (simp add: round_half_even_def Let_def)
qed

lemma rne_less_half: "m < of_int N - 1 / 2 \<Longrightarrow> round_half_even m < N"
proof -
  assume m: "m < of_int N - 1 / 2"
  then have "m < of_int N" by simp
  then have f: "\<lfloor>m\<rfloor> < N" by (simp add: floor_less_iff)
  show ?thesis
  proof (cases "\<lfloor>m\<rfloor> = N - 1")
    case True
    then have "m - of_int \<lfloor>m\<rfloor> < 1 / 2" using m by simp
    then show ?thesis using True by (simp add: round_half_even_def Let_def)
  next
    case False
    with f have "\<lfloor>m\<rfloor> + 1 < N" by simp
    then show ?thesis by (simp add: round_half_even_def Let_def)
  qed
qed

lemma rne_ge_half: "of_int N - 1 / 2 \<le> m \<Longrightarrow> even N \<Longrightarrow> N \<le> round_half_even m"
proof -
  assume m: "of_int N - 1 / 2 \<le> m" and ev: "even N"
  show ?thesis
  proof (cases "N \<le> \<lfloor>m\<rfloor>")
    case True
    then show ?thesis by (simp add: round_half_even_def Let_def)
  next
    case False
    have "of_int (N - 1) \<le> m" using m by simp
    then have "N - 1 \<le> \<lfloor>m\<rfloor>" by (simp only: le_floor_iff)
    with False have f: "\<lfloor>m\<rfloor> = N - 1" by simp
    then have odd: "odd \<lfloor>m\<rfloor>" using ev by simp
    have "1 / 2 \<le> m - of_int \<lfloor>m\<rfloor>" using m f by simp
    then show ?thesis using f odd by (simp add: round_half_even_def Let_def)
  qed
qed

lemma rne_nonneg: "0 \<le> m \<Longrightarrow> 0 \<le> round_half_even m"
  using rne_ge [of 0 m] by simp

lemma powi_mono2: "i \<le> j \<Longrightarrow> (2::rat) powi i \<le> 2 powi j"
  by (rule power_int_increasing) simp_all

lemma powi_less_cancel2: "(2::rat) powi i < 2 powi j \<Longrightarrow> i < j"
proof (rule ccontr)
  assume "(2::rat) powi i < 2 powi j" and "\<not> i < j"
  then have "(2::rat) powi j \<le> 2 powi i" by (intro powi_mono2) simp
  with \<open>(2::rat) powi i < 2 powi j\<close> show False by simp
qed

lemma powi_split53: "(2::rat) powi (e + 1) = 2 ^ 53 * 2 powi (e - 52)"
proof -
  have "(2::rat) powi (53 + (e - 52)) = 2 powi 53 * 2 powi (e - 52)"
    by (rule power_int_add) simp
  then show ?thesis by (simp add: add.commute)
qed

lemma powi_split52: "(2::rat) powi e = 2 ^ 52 * 2 powi (e - 52)"
proof -
  have "(2::rat) powi (52 + (e - 52)) = 2 powi 52 * 2 powi (e - 52)"
    by (rule power_int_add) simp
  then show ?thesis by simp
qed

lemma rounded_abs_nonneg: "0 < a \<Longrightarrow> 0 \<le> rounded_abs a"
  by (simp add: rounded_abs_def Let_def rne_nonneg)

lemma rounded_abs_small:
  assumes pos: "0 < a" and small: "a < 2 ^ 1024 - 2 ^ 970"
  shows "rounded_abs a < 2 ^ 1024"
proof -
  define e where "e = max (ilog2 a) (- 1022)"
  define u :: rat where "u = 2 powi (e - 52)"
  have u: "0 < u" by (simp add: u_def)
  have r: "rounded_abs a = of_int (round_half_even (a / u)) * u"
    by (simp add: rounded_abs_def Let_def e_def u_def)
  from ilog2_bounds [OF pos] have lo: "2 powi (ilog2 a) \<le> a" and hi: "a < 2 powi (ilog2 a + 1)"
    by simp_all
  have "(2::rat) powi (ilog2 a) < 2 powi 1024" using lo small by simp
  then have "ilog2 a < 1024" by (rule powi_less_cancel2)
  then have e_le: "e \<le> 1023" by (simp add: e_def)
  have "(2::rat) powi (ilog2 a + 1) \<le> 2 powi (e + 1)"
    by (rule powi_mono2) (simp add: e_def)
  with hi have a_lt: "a < 2 powi (e + 1)" by simp
  show ?thesis
  proof (cases "e = 1023")
    case True
    then have u': "u = 2 ^ 971" by (simp add: u_def)
    have "a / u < of_int (2 ^ 53) - 1 / 2"
      using small by (simp add: u' field_simps)
    then have "round_half_even (a / u) < 2 ^ 53" by (rule rne_less_half)
    then have "round_half_even (a / u) \<le> 2 ^ 53 - 1" by simp
    then have "(of_int (round_half_even (a / u)) :: rat) \<le> of_int (2 ^ 53 - 1)"
      by (simp only: of_int_le_iff)
    then have "rounded_abs a \<le> of_int (2 ^ 53 - 1) * u"
      unfolding r using u by (simp only: mult_le_cancel_right_pos)
    also have "\<dots> < 2 ^ 1024" by (simp add: u')
    finally show ?thesis .
  next
    case False
    with e_le have "e + 1 \<le> 1023" by simp
    then have top: "(2::rat) powi (e + 1) \<le> 2 powi 1023" by (rule powi_mono2)
    have "a / u < 2 ^ 53"
      using a_lt u unfolding powi_split53 u_def [symmetric] by (simp add: field_simps)
    then have "a / u \<le> of_int (2 ^ 53)" by simp
    then have "round_half_even (a / u) \<le> 2 ^ 53" by (rule rne_le)
    then have "(of_int (round_half_even (a / u)) :: rat) \<le> of_int (2 ^ 53)"
      by (simp only: of_int_le_iff)
    then have "rounded_abs a \<le> of_int (2 ^ 53) * u"
      unfolding r using u by (simp only: mult_le_cancel_right_pos)
    also have "\<dots> = 2 powi (e + 1)" unfolding powi_split53 u_def by simp
    also have "\<dots> \<le> 2 powi 1023" by (rule top)
    also have "\<dots> < (2::rat) ^ 1024" by simp
    finally show ?thesis .
  qed
qed

lemma rounded_abs_large:
  assumes large: "2 ^ 1024 - 2 ^ 970 \<le> a"
  shows "2 ^ 1024 \<le> rounded_abs a"
proof -
  have pos: "0 < a" using large by simp
  from ilog2_bounds [OF pos] have lo: "2 powi (ilog2 a) \<le> a" and hi: "a < 2 powi (ilog2 a + 1)"
    by simp_all
  have "(2::rat) powi 1023 < 2 powi (ilog2 a + 1)" using hi large by simp
  then have "1023 < ilog2 a + 1" by (rule powi_less_cancel2)
  then have e_ge: "1023 \<le> ilog2 a" by simp
  define u :: rat where "u = 2 powi (ilog2 a - 52)"
  have u: "0 < u" by (simp add: u_def)
  have r: "rounded_abs a = of_int (round_half_even (a / u)) * u"
    using e_ge by (simp add: rounded_abs_def Let_def u_def max_def)
  show ?thesis
  proof (cases "ilog2 a = 1023")
    case True
    then have u': "u = 2 ^ 971" by (simp add: u_def)
    have "of_int (2 ^ 53) - 1 / 2 \<le> a / u"
      using large by (simp add: u' field_simps)
    then have "2 ^ 53 \<le> round_half_even (a / u)" by (rule rne_ge_half) simp
    then have "(of_int (2 ^ 53) :: rat) \<le> of_int (round_half_even (a / u))"
      by (simp only: of_int_le_iff)
    then have "of_int (2 ^ 53) * u \<le> rounded_abs a"
      unfolding r using u by (simp only: mult_le_cancel_right_pos)
    then show ?thesis by (simp add: u')
  next
    case False
    with e_ge have "1024 \<le> ilog2 a" by simp
    then have top: "(2::rat) powi 1024 \<le> 2 powi (ilog2 a)" by (rule powi_mono2)
    have "of_int (2 ^ 52) \<le> a / u"
      using lo u unfolding powi_split52 [of "ilog2 a"] u_def [symmetric] by (simp add: field_simps)
    then have "2 ^ 52 \<le> round_half_even (a / u)" by (rule rne_ge)
    then have "(of_int (2 ^ 52) :: rat) \<le> of_int (round_half_even (a / u))"
      by (simp only: of_int_le_iff)
    then have "of_int (2 ^ 52) * u \<le> rounded_abs a"
      unfolding r using u by (simp only: mult_le_cancel_right_pos)
    moreover have "of_int (2 ^ 52) * u = 2 powi (ilog2 a)"
      unfolding u_def using powi_split52 [of "ilog2 a"] by simp
    ultimately have "2 powi (ilog2 a) \<le> rounded_abs a" by simp
    with top have "(2::rat) powi 1024 \<le> rounded_abs a" by (rule order_trans)
    then show ?thesis by simp
  qed
qed

lemma round_double_finite:
  assumes "\<bar>q\<bar> < 2 ^ 1024 - 2 ^ 970"
  shows "\<exists>r. round_double q = Finite r \<and> (0 \<le> q \<longrightarrow> 0 \<le> r)"
proof (cases "q = 0")
  case True
  then show ?thesis by (simp add: round_double_def)
next
  case False
  then have "0 < \<bar>q\<bar>" by simp
  from rounded_abs_small [OF this assms] rounded_abs_nonneg [OF this] False
  show ?thesis by (cases "0 < q") (simp_all add: round_double_def)
qed

lemma round_double_overflow:
  assumes "2 ^ 1024 - 2 ^ 970 \<le> \<bar>q\<bar>"
  shows "round_double q = (if 0 < q then PInf else NInf)"
proof -
  from assms have "q \<noteq> 0" by auto
  with rounded_abs_large [OF assms] show ?thesis
    by (simp add: round_double_def)
qed

lemmas round_eval =
  round_half_even_def Let_def power_int_minus_divide floor_rat_numeral_div floor_rat_one_div

lemma lit_0_005: "float_lit 5 1000 = Finite (5764607523034235 / 2 ^ 60)"
  unfolding float_lit_def
  by (subst round_double_pos [of "- 8"]) (simp_all add: round_eval)

lemma lit_0_001: "float_lit 1 1000 = Finite (1152921504606847 / 2 ^ 60)"
  unfolding float_lit_def
  by (subst round_double_pos [of "- 10"]) (simp_all add: round_eval)

lemma lit_0_006: "float_lit 6 1000 = Finite (3458764513820541 / 2 ^ 59)"
  unfolding float_lit_def
  by (subst round_double_pos [of "- 8"]) (simp_all add: round_eval)

lemma lit_0_01: "float_lit 1 100 = Finite (5764607523034235 / 2 ^ 59)"
  unfolding float_lit_def
  by (subst round_double_pos [of "- 7"]) (simp_all add: round_eval)

section \<open>Properties of \<open>find_high_fee\<close>\<close>

lemma find_high_fee_loop_None:
  "find_high_fee_loop ps = None \<longleftrightarrow> (\<forall>p\<in>set ps. \<not> py_gt_float (snd p) (float_lit 5 1000))"
  by (induction ps rule: find_high_fee_loop.induct) auto

lemma all_less_Suc_conv: "(\<forall>j<Suc k. Q j) \<longleftrightarrow> Q 0 \<and> (\<forall>j<k. Q (Suc j))"
  by (metis less_Suc_eq_0_disj not_less_eq zero_less_Suc)

lemma find_high_fee_loop_enumerate:
  "find_high_fee_loop (enumerate n fees) = Some (i, fee) \<longleftrightarrow>
     (\<exists>k<length fees. i = n + k \<and> fee = fees ! k
        \<and> py_gt_float (fees ! k) (float_lit 5 1000)
        \<and> (\<forall>j<k. \<not> py_gt_float (fees ! j) (float_lit 5 1000)))"
proof (induction fees arbitrary: n)
  case Nil
  then show ?case by simp
next
  case (Cons f fs)
  let ?P = "\<lambda>x. py_gt_float x (float_lit 5 1000)"
  show ?case
  proof (cases "?P f")
    case True
    have "(\<exists>k<length (f # fs). i = n + k \<and> fee = (f # fs) ! k \<and> ?P ((f # fs) ! k)
             \<and> (\<forall>j<k. \<not> ?P ((f # fs) ! j))) \<longleftrightarrow> i = n \<and> fee = f"
    proof
      assume "\<exists>k<length (f # fs). i = n + k \<and> fee = (f # fs) ! k \<and> ?P ((f # fs) ! k)
             \<and> (\<forall>j<k. \<not> ?P ((f # fs) ! j))"
      then obtain k where k: "i = n + k" "fee = (f # fs) ! k" "\<forall>j<k. \<not> ?P ((f # fs) ! j)"
        by blast
      have "k = 0"
      proof (rule ccontr)
        assume "k \<noteq> 0"
        then have "\<not> ?P ((f # fs) ! 0)" using k(3) by blast
        with True show False by simp
      qed
      with k show "i = n \<and> fee = f" by simp
    next
      assume "i = n \<and> fee = f"
      with True show "\<exists>k<length (f # fs). i = n + k \<and> fee = (f # fs) ! k \<and> ?P ((f # fs) ! k)
             \<and> (\<forall>j<k. \<not> ?P ((f # fs) ! j))"
        by (intro exI [of _ 0]) simp
    qed
    with True show ?thesis by auto
  next
    case False
    have "(\<exists>k<length (f # fs). i = n + k \<and> fee = (f # fs) ! k \<and> ?P ((f # fs) ! k)
             \<and> (\<forall>j<k. \<not> ?P ((f # fs) ! j)))
       \<longleftrightarrow> (\<exists>k<length fs. i = Suc n + k \<and> fee = fs ! k \<and> ?P (fs ! k)
             \<and> (\<forall>j<k. \<not> ?P (fs ! j)))" (is "?L \<longleftrightarrow> ?R")
    proof
      assume ?L
      then obtain k where k: "k < length (f # fs)" "i = n + k" "fee = (f # fs) ! k"
        "?P ((f # fs) ! k)" "\<forall>j<k. \<not> ?P ((f # fs) ! j)"
        by blast
      from k(4) False obtain k' where k': "k = Suc k'"
        by (cases k) auto
      from k(5) have "\<forall>j<k'. \<not> ?P (fs ! j)"
        unfolding k' all_less_Suc_conv by simp
      with k show ?R unfolding k' by (intro exI [of _ k']) simp
    next
      assume ?R
      then obtain k where k: "k < length fs" "i = Suc n + k" "fee = fs ! k"
        "?P (fs ! k)" "\<forall>j<k. \<not> ?P (fs ! j)"
        by blast
      from k(5) False have "\<forall>j<Suc k. \<not> ?P ((f # fs) ! j)"
        unfolding all_less_Suc_conv by simp
      with k show ?L by (intro exI [of _ "Suc k"]) simp
    qed
    moreover have "find_high_fee_loop (enumerate n (f # fs)) = find_high_fee_loop (enumerate (Suc n) fs)"
      using False by simp
    ultimately show ?thesis by (simp only: Cons.IH)
  qed
qed

text \<open>
  C8. \<open>find_high_fee\<close> returns the pair \<open>(index, fee)\<close> of the element at the
  lowest index whose fee is strictly greater than \<open>0.005\<close>, and \<open>None\<close> when no
  element exceeds \<open>0.005\<close>; \<open>find_high_fee([0.001, 0.006, 0.01]) == (1, 0.006)\<close>
  and \<open>find_high_fee([0.001]) == None\<close>.
\<close>

theorem find_high_fee_first_match:
  "(find_high_fee fees = None \<longleftrightarrow> (\<forall>fee\<in>set fees. \<not> py_gt_float fee (float_lit 5 1000)))
   \<and> (find_high_fee fees = Some (i, fee) \<longleftrightarrow>
        i < length fees \<and> fee = fees ! i \<and> py_gt_float (fees ! i) (float_lit 5 1000)
        \<and> (\<forall>j<i. \<not> py_gt_float (fees ! j) (float_lit 5 1000)))
   \<and> find_high_fee [PyFloat (float_lit 1 1000), PyFloat (float_lit 6 1000), PyFloat (float_lit 1 100)]
        = Some (1, PyFloat (float_lit 6 1000))
   \<and> find_high_fee [PyFloat (float_lit 1 1000)] = None"
proof (intro conjI)
  have "set (map snd (enumerate 0 fees)) = set fees"
    by (simp only: map_snd_enumerate)
  then have "snd ` set (enumerate 0 fees) = set fees"
    by (simp only: set_map)
  then show "find_high_fee fees = None \<longleftrightarrow> (\<forall>fee\<in>set fees. \<not> py_gt_float fee (float_lit 5 1000))"
    unfolding find_high_fee_def find_high_fee_loop_None by (metis (no_types, lifting) imageE image_eqI)
  show "find_high_fee fees = Some (i, fee) \<longleftrightarrow>
        i < length fees \<and> fee = fees ! i \<and> py_gt_float (fees ! i) (float_lit 5 1000)
        \<and> (\<forall>j<i. \<not> py_gt_float (fees ! j) (float_lit 5 1000))"
    unfolding find_high_fee_def find_high_fee_loop_enumerate by auto
  show "find_high_fee [PyFloat (float_lit 1 1000), PyFloat (float_lit 6 1000), PyFloat (float_lit 1 100)]
        = Some (1, PyFloat (float_lit 6 1000))"
    by (simp add: find_high_fee_def enumerate_eq_zip float_gt_def lit_0_005 lit_0_001 lit_0_006 lit_0_01)
  show "find_high_fee [PyFloat (float_lit 1 1000)] = None"
    by (simp add: find_high_fee_def enumerate_eq_zip float_gt_def lit_0_005 lit_0_001)
qed

theorem find_high_fee_first_match_witness:
  "find_high_fee [PyInt 0, PyFloat (Finite (1 / 4)), PyInt 7] = Some (1, PyFloat (Finite (1 / 4)))
   \<and> \<not> py_gt_float (PyInt 0) (float_lit 5 1000)
   \<and> \<not> py_gt_float (PyInt (- 3)) (float_lit 5 1000)
   \<and> find_high_fee [PyInt 0, PyInt (- 3)] = None"
  using find_high_fee_first_match [of "[PyInt 0, PyFloat (Finite (1 / 4)), PyInt 7]" 1 "PyFloat (Finite (1 / 4))"]
    find_high_fee_first_match [of "[PyInt 0, PyInt (- 3)]" 0 "PyInt 0"]
  by (simp add: float_gt_def lit_0_005 less_Suc_eq_0_disj)

section \<open>Properties of \<open>validate_block_height\<close>\<close>

text \<open>
  C3. For an integer, a float or a string, \<open>validate_block_height\<close> returns a pair
  and no exception leaves it. A string gives \<open>(False, "Block height must be an
  integer")\<close>, and so does a float that is not integral (the infinities and NaN
  among them). Otherwise the height converted to an integer gives \<open>(False, "Block
  height cannot be negative")\<close> when negative, \<open>(False, "Block height seems
  unrealistic")\<close> above 800000, and \<open>(True, "Valid block height")\<close> otherwise.
  The five examples of the specification are evaluated.
\<close>

theorem validate_block_height_total:
  "validate_block_height h =
     Inr (case h of
            HStr s \<Rightarrow> (False, msg_must_be_integer)
          | HFloat f \<Rightarrow>
              (case f of
                 Finite q \<Rightarrow>
                   if q \<noteq> of_int \<lfloor>q\<rfloor> then (False, msg_must_be_integer)
                   else if truncate q < 0 then (False, msg_negative)
                   else if truncate q > 800000 then (False, msg_unrealistic)
                   else (True, msg_valid)
               | _ \<Rightarrow> (False, msg_must_be_integer))
          | HInt n \<Rightarrow>
              if n < 0 then (False, msg_negative)
              else if n > 800000 then (False, msg_unrealistic)
              else (True, msg_valid))
   \<and> validate_block_height (HInt 800000) = Inr (True, ''Valid block height'')
   \<and> validate_block_height (HInt 800001) = Inr (False, ''Block height seems unrealistic'')
   \<and> validate_block_height (HInt (- 1)) = Inr (False, ''Block height cannot be negative'')
   \<and> validate_block_height (HStr ''abc'') = Inr (False, ''Block height must be an integer'')
   \<and> validate_block_height (HFloat (float_lit 1005 10)) = Inr (False, ''Block height must be an integer'')"
proof (intro conjI)
  show "validate_block_height h =
     Inr (case h of
            HStr s \<Rightarrow> (False, msg_must_be_integer)
          | HFloat f \<Rightarrow>
              (case f of
                 Finite q \<Rightarrow>
                   if q \<noteq> of_int \<lfloor>q\<rfloor> then (False, msg_must_be_integer)
                   else if truncate q < 0 then (False, msg_negative)
                   else if truncate q > 800000 then (False, msg_unrealistic)
                   else (True, msg_valid)
               | _ \<Rightarrow> (False, msg_must_be_integer))
          | HInt n \<Rightarrow>
              if n < 0 then (False, msg_negative)
              else if n > 800000 then (False, msg_unrealistic)
              else (True, msg_valid))"
  proof (cases h)
    case (HInt n)
    then show ?thesis by (simp add: check_height_int_def)
  next
    case (HFloat f)
    then show ?thesis by (cases f) (simp_all add: check_height_int_def)
  next
    case (HStr s)
    then show ?thesis by simp
  qed
  have lit: "float_lit 1005 10 = Finite (201 / 2)"
    unfolding float_lit_def
    by (subst round_double_pos [of 6]) (simp_all add: round_eval)
  show "validate_block_height (HFloat (float_lit 1005 10)) = Inr (False, ''Block height must be an integer'')"
    by (simp add: lit msg_must_be_integer_def floor_rat_numeral_div)
qed (simp_all add: check_height_int_def msg_valid_def msg_unrealistic_def msg_negative_def
      msg_must_be_integer_def)

theorem validate_block_height_total_witness:
  "validate_block_height (HFloat (Finite 210000)) = Inr (True, msg_valid)
   \<and> validate_block_height (HFloat (Finite (- 2))) = Inr (False, msg_negative)
   \<and> validate_block_height (HFloat PInf) = Inr (False, msg_must_be_integer)
   \<and> validate_block_height (HFloat NaN) = Inr (False, msg_must_be_integer)"
  using validate_block_height_total [of "HFloat (Finite 210000)"]
    validate_block_height_total [of "HFloat (Finite (- 2))"]
    validate_block_height_total [of "HFloat PInf"]
    validate_block_height_total [of "HFloat NaN"]
  by (simp add: truncate_def)

section \<open>Properties of \<open>generate_address\<close>\<close>






section \<open>Properties of \<open>find_utxo_with_min_value\<close>\<close>

lemma get_value_Some: "''value'' \<in> dom u \<Longrightarrow> get_value u = Inr (the (u ''value''))"
  by (auto simp: get_value_def)

lemma valid_utxos_filter:
  "\<forall>u\<in>set utxos. ''value'' \<in> dom u \<Longrightarrow>
   valid_utxos utxos target = Inr (filter (\<lambda>u. the (u ''value'') \<ge> target) utxos)"
  by (induction utxos) (simp_all add: get_value_Some)

text \<open>
  The running minimum: the result is the first item with the least value, counting
  the initial item.
\<close>

lemma min_loop_spec:
  assumes "\<forall>u\<in>set us. ''value'' \<in> dom u" and "the (best ''value'') = bk"
  shows "\<exists>i<length (best # us). min_loop best bk us = Inr ((best # us) ! i)
           \<and> (\<forall>j<length (best # us). the (((best # us) ! i) ''value'') \<le> the (((best # us) ! j) ''value''))
           \<and> (\<forall>j<i. the (((best # us) ! i) ''value'') < the (((best # us) ! j) ''value''))"
  using assms
proof (induction us arbitrary: best bk)
  case Nil
  then show ?case by simp
next
  case (Cons u us)
  let ?v = "\<lambda>x. the (x ''value'')"
  from Cons.prems have gv: "get_value u = Inr (?v u)" by (simp add: get_value_Some)
  show ?case
  proof (cases "?v u < bk")
    case True
    from Cons.prems have "\<forall>x\<in>set us. ''value'' \<in> dom x" by simp
    from Cons.IH [of u "?v u", OF this refl]
    obtain i where i: "i < length (u # us)" "min_loop u (?v u) us = Inr ((u # us) ! i)"
      "\<forall>j<length (u # us). ?v ((u # us) ! i) \<le> ?v ((u # us) ! j)"
      "\<forall>j<i. ?v ((u # us) ! i) < ?v ((u # us) ! j)"
      by auto
    from i(3) have le_u: "?v ((u # us) ! i) \<le> ?v u" by fastforce
    have "min_loop best bk (u # us) = Inr ((best # u # us) ! Suc i)"
      using True gv i(2) by simp
    moreover have "\<forall>j<length (best # u # us). ?v ((best # u # us) ! Suc i) \<le> ?v ((best # u # us) ! j)"
    proof (intro allI impI)
      fix j assume "j < length (best # u # us)"
      then show "?v ((best # u # us) ! Suc i) \<le> ?v ((best # u # us) ! j)"
        using i(3) le_u True Cons.prems(2) by (cases j) auto
    qed
    moreover have "\<forall>j<Suc i. ?v ((best # u # us) ! Suc i) < ?v ((best # u # us) ! j)"
    proof (intro allI impI)
      fix j assume "j < Suc i"
      then show "?v ((best # u # us) ! Suc i) < ?v ((best # u # us) ! j)"
        using i(4) le_u True Cons.prems(2) by (cases j) auto
    qed
    ultimately show ?thesis using i(1) by (intro exI [of _ "Suc i"]) simp
  next
    case False
    from Cons.prems have "\<forall>x\<in>set us. ''value'' \<in> dom x" by simp
    from Cons.IH [of best bk, OF this Cons.prems(2)]
    obtain i where i: "i < length (best # us)" "min_loop best bk us = Inr ((best # us) ! i)"
      "\<forall>j<length (best # us). ?v ((best # us) ! i) \<le> ?v ((best # us) ! j)"
      "\<forall>j<i. ?v ((best # us) ! i) < ?v ((best # us) ! j)"
      by auto
    from i(3) have le_b: "?v ((best # us) ! i) \<le> bk" using Cons.prems(2) by fastforce
    define i' where "i' = (case i of 0 \<Rightarrow> 0 | Suc k \<Rightarrow> Suc (Suc k))"
    have same: "(best # u # us) ! i' = (best # us) ! i"
      by (cases i) (simp_all add: i'_def)
    have "min_loop best bk (u # us) = Inr ((best # u # us) ! i')"
      using False gv i(2) same by simp
    moreover have "i' < length (best # u # us)"
      using i(1) by (cases i) (simp_all add: i'_def)
    moreover have "\<forall>j<length (best # u # us). ?v ((best # u # us) ! i') \<le> ?v ((best # u # us) ! j)"
    proof (intro allI impI)
      fix j assume j: "j < length (best # u # us)"
      show "?v ((best # u # us) ! i') \<le> ?v ((best # u # us) ! j)"
      proof (cases j)
        case 0
        then show ?thesis using i(3) same by fastforce
      next
        case (Suc k)
        show ?thesis
        proof (cases k)
          case 0
          then show ?thesis using Suc same le_b False by simp
        next
          case (Suc m)
          then have "Suc m < length (best # us)"
            using j \<open>j = Suc k\<close> by simp
          then have "?v ((best # us) ! i) \<le> ?v ((best # us) ! Suc m)"
            using i(3) by blast
          then show ?thesis using Suc \<open>j = Suc k\<close> same by simp
        qed
      qed
    qed
    moreover have "\<forall>j<i'. ?v ((best # u # us) ! i') < ?v ((best # u # us) ! j)"
    proof (intro allI impI)
      fix j assume j: "j < i'"
      show "?v ((best # u # us) ! i') < ?v ((best # u # us) ! j)"
      proof (cases i)
        case 0
        then show ?thesis using j by (simp add: i'_def)
      next
        case (Suc n)
        then have i'': "i' = Suc (Suc n)" by (simp add: i'_def)
        have lt0: "?v ((best # us) ! i) < ?v best" using i(4) Suc by fastforce
        show ?thesis
        proof (cases j)
          case 0
          then show ?thesis using same lt0 by simp
        next
          case (Suc k)
          note jk = this
          show ?thesis
          proof (cases k)
            case 0
            then show ?thesis using jk same lt0 False Cons.prems(2) by simp
          next
            case (Suc m)
            then have "Suc m < i" using j jk i'' \<open>i = Suc n\<close> by simp
            then have "?v ((best # us) ! i) < ?v ((best # us) ! Suc m)" using i(4) by blast
            then show ?thesis using jk Suc same by simp
          qed
        qed
      qed
    qed
    ultimately show ?thesis by blast
  qed
qed


lemma min_by_value_decomp:
  assumes dom: "\<forall>u\<in>set xs. ''value'' \<in> dom u" and ne: "xs \<noteq> []"
  shows "\<exists>pre x post. xs = pre @ x # post \<and> min_by_value xs = Inr x
           \<and> (\<forall>y\<in>set pre. the (x ''value'') < the (y ''value''))
           \<and> (\<forall>y\<in>set post. the (x ''value'') \<le> the (y ''value''))"
proof -
  let ?v = "\<lambda>x. the (x ''value'')"
  from ne obtain b us where xs: "xs = b # us" by (cases xs) auto
  with dom have "get_value b = Inr (?v b)" and us: "\<forall>u\<in>set us. ''value'' \<in> dom u"
    by (simp_all add: get_value_Some)
  then have run: "min_by_value xs = min_loop b (?v b) us"
    by (simp add: xs)
  from min_loop_spec [OF us refl, of b]
  obtain i where i: "i < length xs" "min_loop b (?v b) us = Inr (xs ! i)"
    "\<forall>j<length xs. ?v (xs ! i) \<le> ?v (xs ! j)"
    "\<forall>j<i. ?v (xs ! i) < ?v (xs ! j)"
    unfolding xs by blast
  have "xs = take i xs @ xs ! i # drop (Suc i) xs"
    using i(1) by (rule id_take_nth_drop)
  moreover have "\<forall>y\<in>set (take i xs). ?v (xs ! i) < ?v y"
  proof
    fix y assume "y \<in> set (take i xs)"
    then obtain j where "j < length (take i xs)" "take i xs ! j = y"
      by (auto simp: in_set_conv_nth)
    then have "j < i" "xs ! j = y" by simp_all
    with i(4) show "?v (xs ! i) < ?v y" by blast
  qed
  moreover have "\<forall>y\<in>set (drop (Suc i) xs). ?v (xs ! i) \<le> ?v y"
  proof
    fix y assume "y \<in> set (drop (Suc i) xs)"
    then have "y \<in> set xs" by (rule in_set_dropD)
    then obtain j where "j < length xs" "xs ! j = y"
      by (auto simp: in_set_conv_nth)
    with i(3) show "?v (xs ! i) \<le> ?v y" by blast
  qed
  ultimately show ?thesis using run i(2) by metis
qed

lemma filter_eq_appendD:
  "filter P ys = pre @ x # post \<Longrightarrow>
   \<exists>us vs. ys = us @ x # vs \<and> filter P us = pre \<and> P x \<and> filter P vs = post"
proof (induction pre arbitrary: ys)
  case Nil
  then have "filter P ys = x # post" by simp
  then obtain us vs where "ys = us @ x # vs" "\<forall>u\<in>set us. \<not> P u" "P x" "post = filter P vs"
    by (auto dest: filter_eq_ConsD)
  then show ?case by (intro exI [of _ us] exI [of _ vs]) simp
next
  case (Cons p pre)
  then have "filter P ys = p # (pre @ x # post)" by simp
  then obtain us vs where ys: "ys = us @ p # vs" "\<forall>u\<in>set us. \<not> P u" "P p"
      "pre @ x # post = filter P vs"
    by (auto dest: filter_eq_ConsD)
  from Cons.IH [OF ys(4) [symmetric]]
  obtain us' vs' where vs: "vs = us' @ x # vs'" "filter P us' = pre" "P x" "filter P vs' = post"
    by blast
  show ?case
    using ys vs by (intro exI [of _ "us @ p # us'"] exI [of _ vs']) simp
qed

lemma find_utxo_with_min_value_general:
  assumes dom: "\<forall>u\<in>set utxos. ''value'' \<in> dom u"
  shows "(if \<forall>u\<in>set utxos. the (u ''value'') < target
          then find_utxo_with_min_value utxos target = Inr Map.empty
          else \<exists>i<length utxos.
                 find_utxo_with_min_value utxos target = Inr (utxos ! i)
                 \<and> target \<le> the ((utxos ! i) ''value'')
                 \<and> (\<forall>j<length utxos. target \<le> the ((utxos ! j) ''value'') \<longrightarrow>
                        the ((utxos ! i) ''value'') \<le> the ((utxos ! j) ''value''))
                 \<and> (\<forall>j<i. target \<le> the ((utxos ! j) ''value'') \<longrightarrow>
                        the ((utxos ! i) ''value'') < the ((utxos ! j) ''value'')))"
proof -
  let ?v = "\<lambda>x. the (x ''value'')"
  let ?P = "\<lambda>u. target \<le> ?v u"
  let ?fs = "filter ?P utxos"
  have valid: "valid_utxos utxos target = Inr ?fs"
    using dom by (rule valid_utxos_filter)
  show ?thesis
  proof (cases "\<forall>u\<in>set utxos. ?v u < target")
    case True
    then have "?fs = []" by (auto simp: filter_empty_conv)
    with True valid show ?thesis by (simp add: find_utxo_with_min_value_def)
  next
    case False
    then obtain w where "w \<in> set utxos" "target \<le> ?v w"
      by (auto simp: not_less)
    then have "w \<in> set ?fs" by simp
    then have ne: "?fs \<noteq> []" by (metis empty_iff empty_set)
    have "\<forall>u\<in>set ?fs. ''value'' \<in> dom u" using dom by simp
    from min_by_value_decomp [OF this ne]
    obtain pre x post where d: "?fs = pre @ x # post" "min_by_value ?fs = Inr x"
      "\<forall>y\<in>set pre. ?v x < ?v y" "\<forall>y\<in>set post. ?v x \<le> ?v y"
      by blast
    from filter_eq_appendD [OF d(1)]
    obtain us vs where u: "utxos = us @ x # vs" "filter ?P us = pre" "?P x" "filter ?P vs = post"
      by blast
    have res: "find_utxo_with_min_value utxos target = Inr x"
      using valid ne d(2) by (simp add: find_utxo_with_min_value_def)
    have at: "utxos ! length us = x" by (simp add: u(1))
    have all: "\<forall>j<length utxos. ?P (utxos ! j) \<longrightarrow> ?v x \<le> ?v (utxos ! j)"
    proof (intro allI impI)
      fix j assume "j < length utxos" and P: "?P (utxos ! j)"
      then have "utxos ! j \<in> set utxos" by simp
      with P have "utxos ! j \<in> set ?fs" by simp
      then have "utxos ! j \<in> set pre \<or> utxos ! j = x \<or> utxos ! j \<in> set post"
        unfolding d(1) by auto
      with d(3,4) show "?v x \<le> ?v (utxos ! j)" by fastforce
    qed
    have before: "\<forall>j<length us. ?P (utxos ! j) \<longrightarrow> ?v x < ?v (utxos ! j)"
    proof (intro allI impI)
      fix j assume j: "j < length us" and P: "?P (utxos ! j)"
      then have "utxos ! j = us ! j" by (simp add: u(1) nth_append)
      with j P have "utxos ! j \<in> set (filter ?P us)" by simp
      with u(2) d(3) show "?v x < ?v (utxos ! j)" by blast
    qed
    have "length us < length utxos" by (simp add: u(1))
    with False res at u(3) all before show ?thesis
      by (auto intro!: exI [of _ "length us"])
  qed
qed

text \<open>
  C2. For a list of UTXOs that all have a \<open>value\<close> key, \<open>find_utxo_with_min_value\<close>
  returns the empty dictionary when no value reaches the target; otherwise it returns
  the UTXO at an index \<open>i\<close> whose value reaches the target, is the least among the
  values reaching the target, and is strictly less than each such value at an earlier
  index (ties go to the first occurrence). For the values 100, 300, 200 and target 150
  the result is the UTXO with value 200.
\<close>

theorem find_utxo_with_min_value_spec:
  "((\<forall>u\<in>set utxos. ''value'' \<in> dom u) \<longrightarrow>
      (if \<forall>u\<in>set utxos. the (u ''value'') < target
       then find_utxo_with_min_value utxos target = Inr Map.empty
       else \<exists>i<length utxos.
              find_utxo_with_min_value utxos target = Inr (utxos ! i)
              \<and> target \<le> the ((utxos ! i) ''value'')
              \<and> (\<forall>j<length utxos. target \<le> the ((utxos ! j) ''value'') \<longrightarrow>
                     the ((utxos ! i) ''value'') \<le> the ((utxos ! j) ''value''))
              \<and> (\<forall>j<i. target \<le> the ((utxos ! j) ''value'') \<longrightarrow>
                     the ((utxos ! i) ''value'') < the ((utxos ! j) ''value''))))
   \<and> find_utxo_with_min_value
         [[''value'' \<mapsto> 100], [''value'' \<mapsto> 300], [''value'' \<mapsto> 200]] 150
       = Inr [''value'' \<mapsto> 200]"
proof (intro conjI impI)
  assume "\<forall>u\<in>set utxos. ''value'' \<in> dom u"
  then show "if \<forall>u\<in>set utxos. the (u ''value'') < target
       then find_utxo_with_min_value utxos target = Inr Map.empty
       else \<exists>i<length utxos.
              find_utxo_with_min_value utxos target = Inr (utxos ! i)
              \<and> target \<le> the ((utxos ! i) ''value'')
              \<and> (\<forall>j<length utxos. target \<le> the ((utxos ! j) ''value'') \<longrightarrow>
                     the ((utxos ! i) ''value'') \<le> the ((utxos ! j) ''value''))
              \<and> (\<forall>j<i. target \<le> the ((utxos ! j) ''value'') \<longrightarrow>
                     the ((utxos ! i) ''value'') < the ((utxos ! j) ''value''))"
    by (rule find_utxo_with_min_value_general)
next
  show "find_utxo_with_min_value
         [[''value'' \<mapsto> 100], [''value'' \<mapsto> 300], [''value'' \<mapsto> 200]] 150
       = Inr [''value'' \<mapsto> 200]"
    by (simp add: find_utxo_with_min_value_def get_value_def)
qed

theorem find_utxo_with_min_value_spec_witness:
  "''value'' \<in> dom [''value'' \<mapsto> 5 :: int, ''vout'' \<mapsto> 0]
   \<and> ''value'' \<in> dom [''value'' \<mapsto> 5 :: int, ''vout'' \<mapsto> 1]
   \<and> find_utxo_with_min_value
         [[''value'' \<mapsto> 5, ''vout'' \<mapsto> 0], [''value'' \<mapsto> 5, ''vout'' \<mapsto> 1]] 6 = Inr Map.empty
   \<and> find_utxo_with_min_value
         [[''value'' \<mapsto> 5, ''vout'' \<mapsto> 0], [''value'' \<mapsto> 5, ''vout'' \<mapsto> 1]] 5
       = Inr [''value'' \<mapsto> 5, ''vout'' \<mapsto> 0]"
  using find_utxo_with_min_value_spec
      [of "[[''value'' \<mapsto> 5, ''vout'' \<mapsto> 0], [''value'' \<mapsto> 5, ''vout'' \<mapsto> 1]]" 6]
    find_utxo_with_min_value_spec
      [of "[[''value'' \<mapsto> 5, ''vout'' \<mapsto> 0], [''value'' \<mapsto> 5, ''vout'' \<mapsto> 1]]" 5]
  by (auto simp: less_Suc_eq_0_disj)

section \<open>Properties of \<open>tx_priority\<close>\<close>

text \<open>The literals of the examples, and the fee rates computed from them.\<close>

lemma lit_5em5: "float_lit 5 100000 = Finite (7378697629483821 / 2 ^ 67)"
  unfolding float_lit_def
  by (subst round_double_pos [of "- 15"]) (simp_all add: round_eval)

lemma lit_1em5: "float_lit 1 100000 = Finite (5902958103587057 / 2 ^ 69)"
  unfolding float_lit_def
  by (subst round_double_pos [of "- 17"]) (simp_all add: round_eval)

lemma lit_6em5: "float_lit 6 100000 = Finite (8854437155380585 / 2 ^ 67)"
  unfolding float_lit_def
  by (subst round_double_pos [of "- 15"]) (simp_all add: round_eval)

lemma lit_2em5: "float_lit 2 100000 = Finite (5902958103587057 / 2 ^ 68)"
  unfolding float_lit_def
  by (subst round_double_pos [of "- 16"]) (simp_all add: round_eval)

lemma lit_1em6: "float_lit 1 1000000 = Finite (4722366482869645 / 2 ^ 72)"
  unfolding float_lit_def
  by (subst round_double_pos [of "- 20"]) (simp_all add: round_eval)

lemma float_of_int_1000: "float_of_int 1000 = Inr (Finite 1000)"
  unfolding float_of_int_def
  by (simp, subst round_double_pos [of 9]) (simp_all add: round_eval)

lemma float_of_int_1: "float_of_int 1 = Inr (Finite 1)"
  unfolding float_of_int_def
  by (simp, subst round_double_pos [of 0]) (simp_all add: round_eval)

lemma rate_6em5_1000:
  "py_truediv (PyFloat (float_lit 6 100000)) 1000 = Inr (Finite (1133367955888715 / 2 ^ 74))"
  by (simp add: lit_6em5 float_of_int_1000, subst round_double_pos [of "- 24"])
    (simp_all add: round_eval)

lemma rate_2em5_1000:
  "py_truediv (PyFloat (float_lit 2 100000)) 1000 = Inr (Finite (3022314549036573 / 2 ^ 77))"
  by (simp add: lit_2em5 float_of_int_1000, subst round_double_pos [of "- 26"])
    (simp_all add: round_eval)

lemma rate_1em6_1000:
  "py_truediv (PyFloat (float_lit 1 1000000)) 1000 = Inr (Finite (1208925819614629 / 2 ^ 80))"
  by (simp add: lit_1em6 float_of_int_1000, subst round_double_pos [of "- 30"])
    (simp_all add: round_eval)

text \<open>
  C5, as amended. \<open>tx_priority(1000, 0.00006) == "low"\<close>,
  \<open>tx_priority(1000, 0.00002) == "low"\<close> and
  \<open>tx_priority(1000, 0.000001) == "low"\<close>: the fee is divided by the size before it
  is compared, and the three fee rates (6e-08, 2e-08 and 1e-09) are all below
  \<open>0.00001\<close>.
\<close>

theorem tx_priority_examples:
  "tx_priority 1000 (PyFloat (float_lit 6 100000)) = Inr ''low''
   \<and> tx_priority 1000 (PyFloat (float_lit 2 100000)) = Inr ''low''
   \<and> tx_priority 1000 (PyFloat (float_lit 1 1000000)) = Inr ''low''"
  unfolding tx_priority_def rate_6em5_1000 rate_2em5_1000 rate_1em6_1000
  by (simp add: float_ge_def lit_5em5 lit_1em5)

text \<open>
  C5 as stated fails: the first call does not return \<open>"high"\<close> and the second does
  not return \<open>"medium"\<close>.
\<close>

theorem tx_priority_examples_refuted:
  "tx_priority 1000 (PyFloat (float_lit 6 100000)) \<noteq> Inr ''high''
   \<and> tx_priority 1000 (PyFloat (float_lit 2 100000)) \<noteq> Inr ''medium''"
  unfolding tx_priority_def rate_6em5_1000 rate_2em5_1000
  by (simp add: float_ge_def lit_5em5 lit_1em5)

text \<open>With size 1 the fee rate is the fee, and the two outcomes are reached.\<close>

lemma rate_6em5_1:
  "py_truediv (PyFloat (float_lit 6 100000)) 1 = Inr (float_lit 6 100000)"
  by (simp add: lit_6em5 float_of_int_1, subst round_double_pos [of "- 15"])
    (simp_all add: round_eval)

lemma rate_2em5_1:
  "py_truediv (PyFloat (float_lit 2 100000)) 1 = Inr (float_lit 2 100000)"
  by (simp add: lit_2em5 float_of_int_1, subst round_double_pos [of "- 16"])
    (simp_all add: round_eval)

lemma tx_priority_size_one:
  "tx_priority 1 (PyFloat (float_lit 6 100000)) = Inr ''high''
   \<and> tx_priority 1 (PyFloat (float_lit 2 100000)) = Inr ''medium''"
  unfolding tx_priority_def rate_6em5_1 rate_2em5_1
  by (simp add: float_ge_def lit_5em5 lit_1em5 lit_6em5 lit_2em5)



text \<open>When the division returns, and when it raises.\<close>

lemma rounded_abs_pos:
  assumes "1 \<le> a"
  shows "0 < rounded_abs a"
proof -
  have pos: "0 < a" using assms by simp
  from ilog2_bounds [OF pos] have lo: "2 powi (ilog2 a) \<le> a" and hi: "a < 2 powi (ilog2 a + 1)"
    by simp_all
  have "(2::rat) powi 0 < 2 powi (ilog2 a + 1)" using hi assms by simp
  then have "0 < ilog2 a + 1" by (rule powi_less_cancel2)
  then have e_ge: "0 \<le> ilog2 a" by simp
  define u :: rat where "u = 2 powi (ilog2 a - 52)"
  have u: "0 < u" by (simp add: u_def)
  have r: "rounded_abs a = of_int (round_half_even (a / u)) * u"
    using e_ge by (simp add: rounded_abs_def Let_def u_def max_def)
  have "of_int (2 ^ 52) \<le> a / u"
    using lo u unfolding powi_split52 [of "ilog2 a"] u_def [symmetric] by (simp add: field_simps)
  then have "2 ^ 52 \<le> round_half_even (a / u)" by (rule rne_ge)
  then have "0 < round_half_even (a / u)" by simp
  then show ?thesis unfolding r using u by simp
qed

lemma float_of_int_finite:
  assumes "n \<noteq> 0" and "\<bar>of_int n\<bar> < (2 ^ 1024 - 2 ^ 970 :: rat)"
  shows "\<exists>d. float_of_int n = Inr (Finite d) \<and> d \<noteq> 0"
proof -
  have "1 \<le> \<bar>n\<bar>" using assms(1) by simp
  then have "(of_int 1 :: rat) \<le> of_int \<bar>n\<bar>" by (simp only: of_int_le_iff)
  then have one: "1 \<le> \<bar>of_int n :: rat\<bar>" by simp
  have nz: "(of_int n :: rat) \<noteq> 0" using assms(1) by simp
  have "rounded_abs \<bar>of_int n\<bar> < 2 ^ 1024"
    using assms(2) one by (intro rounded_abs_small) simp_all
  moreover have "0 < rounded_abs \<bar>of_int n\<bar>" using one by (rule rounded_abs_pos)
  ultimately show ?thesis using nz
    by (cases "0 < n") (simp_all add: float_of_int_def round_double_def Let_def)
qed

lemma float_of_int_overflow:
  assumes "(2 ^ 1024 - 2 ^ 970 :: rat) \<le> \<bar>of_int n\<bar>"
  shows "float_of_int n = Inl OverflowError"
  using round_double_overflow [OF assms] by (simp add: float_of_int_def)

lemma float_truediv_nonzero:
  "d \<noteq> 0 \<Longrightarrow> \<exists>r. float_truediv f (Finite d) = Inr r"
  by (cases f) simp_all

lemma int_truediv_finite:
  assumes "b \<noteq> 0" and "\<bar>of_int a / of_int b\<bar> < (2 ^ 1024 - 2 ^ 970 :: rat)"
  shows "\<exists>r. int_truediv a b = Inr r"
  using round_double_finite [OF assms(2)] assms(1) by (auto simp: int_truediv_def)

lemma int_truediv_overflow:
  assumes "b \<noteq> 0" and "(2 ^ 1024 - 2 ^ 970 :: rat) \<le> \<bar>of_int a / of_int b\<bar>"
  shows "int_truediv a b = Inl OverflowError"
  using round_double_overflow [OF assms(2)] assms(1) by (simp add: int_truediv_def)

lemma py_truediv_zero: "py_truediv fee 0 = Inl ZeroDivisionError"
proof (cases fee)
  case (PyInt a)
  then show ?thesis by (simp add: int_truediv_def)
next
  case (PyFloat f)
  then show ?thesis by (simp add: float_of_int_def round_double_def)
qed

lemma py_truediv_cases:
  assumes nz: "size_bytes \<noteq> 0"
  shows "if (case fee of
               PyFloat f \<Rightarrow> overflow_threshold \<le> \<bar>of_int size_bytes\<bar>
             | PyInt a \<Rightarrow> overflow_threshold \<le> \<bar>of_int a / of_int size_bytes\<bar>)
         then py_truediv fee size_bytes = Inl OverflowError
         else \<exists>r. py_truediv fee size_bytes = Inr r"
proof (cases fee)
  case (PyInt a)
  show ?thesis
  proof (cases "overflow_threshold \<le> \<bar>of_int a / of_int size_bytes\<bar>")
    case True
    then show ?thesis using nz PyInt int_truediv_overflow [of size_bytes a]
      by (simp add: overflow_threshold_def)
  next
    case False
    then have "\<bar>of_int a / of_int size_bytes\<bar> < (2 ^ 1024 - 2 ^ 970 :: rat)"
      by (simp add: overflow_threshold_def)
    from int_truediv_finite [OF nz this] obtain r where "int_truediv a size_bytes = Inr r" ..
    then show ?thesis using False PyInt by simp
  qed
next
  case (PyFloat f)
  show ?thesis
  proof (cases "overflow_threshold \<le> \<bar>of_int size_bytes\<bar>")
    case True
    then show ?thesis using PyFloat float_of_int_overflow [of size_bytes]
      by (simp add: overflow_threshold_def)
  next
    case False
    then have "\<bar>of_int size_bytes\<bar> < (2 ^ 1024 - 2 ^ 970 :: rat)"
      by (simp add: overflow_threshold_def)
    from float_of_int_finite [OF nz this]
    obtain d where d: "float_of_int size_bytes = Inr (Finite d)" "d \<noteq> 0" by blast
    from float_truediv_nonzero [OF d(2)] obtain r where "float_truediv f (Finite d) = Inr r" ..
    then show ?thesis using False PyFloat d by simp
  qed
qed

lemma not_ge_iff_lt:
  "float_ge r c \<Longrightarrow> \<not> float_ge r (Finite y) \<longleftrightarrow> float_lt r (Finite y)"
  by (cases r; cases c) (auto simp: float_ge_def)

lemma rate_1_2: "py_truediv (PyFloat (Finite 1)) 2 = Inr (Finite (1 / 2))"
proof -
  have "float_of_int 2 = Inr (Finite 2)"
    unfolding float_of_int_def
    by (simp, subst round_double_pos [of 1]) (simp_all add: round_eval)
  moreover have "round_double (1 / 2) = Finite (1 / 2)"
    by (subst round_double_pos [of "- 1"]) (simp_all add: round_eval)
  ultimately show ?thesis by simp
qed

text \<open>
  C4, as amended. For every integer \<open>size_bytes != 0\<close> and every number \<open>fee_btc\<close>
  for which the division does not overflow (a float fee with \<open>|size_bytes|\<close> below
  \<open>2^1024 - 2^970\<close>, or an integer fee with \<open>|fee_btc / size_bytes|\<close> below it),
  \<open>tx_priority\<close> computes \<open>fee_rate = fee_btc / size_bytes\<close> and returns
  \<open>'high'\<close> when \<open>fee_rate >= 0.00005\<close>, \<open>'medium'\<close> when
  \<open>0.00001 <= fee_rate < 0.00005\<close>, and \<open>'low'\<close> otherwise.
\<close>

theorem tx_priority_classification:
  "size_bytes \<noteq> 0 \<longrightarrow>
   (case fee_btc of
      PyFloat f \<Rightarrow> \<bar>of_int size_bytes\<bar> < overflow_threshold
    | PyInt a \<Rightarrow> \<bar>of_int a / of_int size_bytes\<bar> < overflow_threshold) \<longrightarrow>
   (\<exists>fee_rate. py_truediv fee_btc size_bytes = Inr fee_rate
      \<and> tx_priority size_bytes fee_btc =
          Inr (if float_ge fee_rate (float_lit 5 100000) then ''high''
               else if float_ge fee_rate (float_lit 1 100000)
                       \<and> float_lt fee_rate (float_lit 5 100000) then ''medium''
               else ''low''))"
proof (intro impI)
  assume nz: "size_bytes \<noteq> 0"
    and fits: "case fee_btc of
      PyFloat f \<Rightarrow> \<bar>of_int size_bytes\<bar> < overflow_threshold
    | PyInt a \<Rightarrow> \<bar>of_int a / of_int size_bytes\<bar> < overflow_threshold"
  then have "\<not> (case fee_btc of
               PyFloat f \<Rightarrow> overflow_threshold \<le> \<bar>of_int size_bytes\<bar>
             | PyInt a \<Rightarrow> overflow_threshold \<le> \<bar>of_int a / of_int size_bytes\<bar>)"
    by (cases fee_btc) simp_all
  with py_truediv_cases [OF nz, of fee_btc]
  obtain fee_rate where rate: "py_truediv fee_btc size_bytes = Inr fee_rate"
    by auto
  have c5: "float_lit 5 100000 = Finite (7378697629483821 / 2 ^ 67)" by (rule lit_5em5)
  have "tx_priority size_bytes fee_btc =
          Inr (if float_ge fee_rate (float_lit 5 100000) then ''high''
               else if float_ge fee_rate (float_lit 1 100000)
                       \<and> float_lt fee_rate (float_lit 5 100000) then ''medium''
               else ''low'')"
    unfolding tx_priority_def rate c5
    using not_ge_iff_lt [of fee_rate "float_lit 1 100000" "7378697629483821 / 2 ^ 67"]
    by auto
  with rate show "\<exists>fee_rate. py_truediv fee_btc size_bytes = Inr fee_rate
      \<and> tx_priority size_bytes fee_btc =
          Inr (if float_ge fee_rate (float_lit 5 100000) then ''high''
               else if float_ge fee_rate (float_lit 1 100000)
                       \<and> float_lt fee_rate (float_lit 5 100000) then ''medium''
               else ''low'')"
    by blast
qed

theorem tx_priority_classification_witness:
  "(2 :: int) \<noteq> 0 \<and> \<bar>of_int 2\<bar> < overflow_threshold
   \<and> tx_priority 2 (PyFloat (Finite 1)) = Inr ''high''"
proof -
  have fits: "\<bar>of_int 2\<bar> < overflow_threshold"
    by (simp add: overflow_threshold_def)
  with tx_priority_classification [of 2 "PyFloat (Finite 1)"]
  obtain fee_rate where rate: "py_truediv (PyFloat (Finite 1)) 2 = Inr fee_rate"
    and res: "tx_priority 2 (PyFloat (Finite 1)) =
          Inr (if float_ge fee_rate (float_lit 5 100000) then ''high''
               else if float_ge fee_rate (float_lit 1 100000)
                       \<and> float_lt fee_rate (float_lit 5 100000) then ''medium''
               else ''low'')"
    by (auto simp del: py_truediv.simps)
  from rate have "fee_rate = Finite (1 / 2)" unfolding rate_1_2 by simp
  with res have "tx_priority 2 (PyFloat (Finite 1)) = Inr ''high''"
    by (simp add: float_ge_def lit_5em5)
  with fits show ?thesis by simp
qed

text \<open>
  C4 as stated, for every non-zero size, fails: a size of \<open>2^1024\<close> has no float
  value, and dividing a float fee by it raises \<open>OverflowError\<close>.
\<close>

theorem tx_priority_large_size_raises:
  "(2 ^ 1024 :: int) \<noteq> 0 \<and> tx_priority (2 ^ 1024) (PyFloat (Finite 1)) = Inl OverflowError"
proof -
  have "float_of_int (2 ^ 1024) = Inl OverflowError"
    by (rule float_of_int_overflow) simp
  then show ?thesis by (simp add: tx_priority_def)
qed

text \<open>
  C9, as amended. For every \<open>fee_btc\<close>, \<open>tx_priority\<close> with \<open>size_bytes\<close> equal to
  zero raises \<open>ZeroDivisionError\<close>. With a non-zero size it raises \<open>OverflowError\<close>
  exactly when the division overflows (a float fee with \<open>|size_bytes| >= 2^1024 -
  2^970\<close>, or an integer fee with \<open>|fee_btc / size_bytes| >= 2^1024 - 2^970\<close>), and
  returns a priority on every other input.
\<close>

theorem tx_priority_failures:
  "tx_priority 0 fee_btc = Inl ZeroDivisionError
   \<and> (size_bytes \<noteq> 0 \<longrightarrow>
        (if (case fee_btc of
               PyFloat f \<Rightarrow> overflow_threshold \<le> \<bar>of_int size_bytes\<bar>
             | PyInt a \<Rightarrow> overflow_threshold \<le> \<bar>of_int a / of_int size_bytes\<bar>)
         then tx_priority size_bytes fee_btc = Inl OverflowError
         else \<exists>priority. tx_priority size_bytes fee_btc = Inr priority))"
proof (intro conjI impI)
  show "tx_priority 0 fee_btc = Inl ZeroDivisionError"
    unfolding tx_priority_def py_truediv_zero by simp
next
  assume nz: "size_bytes \<noteq> 0"
  from py_truediv_cases [OF nz, of fee_btc]
  show "if (case fee_btc of
               PyFloat f \<Rightarrow> overflow_threshold \<le> \<bar>of_int size_bytes\<bar>
             | PyInt a \<Rightarrow> overflow_threshold \<le> \<bar>of_int a / of_int size_bytes\<bar>)
         then tx_priority size_bytes fee_btc = Inl OverflowError
         else \<exists>priority. tx_priority size_bytes fee_btc = Inr priority"
    by (auto simp: tx_priority_def split: if_splits)
qed

theorem tx_priority_failures_witness:
  "tx_priority 0 (PyInt 7) = Inl ZeroDivisionError
   \<and> (- (2 ^ 1024) :: int) \<noteq> 0
   \<and> overflow_threshold \<le> \<bar>of_int (- (2 ^ 1024))\<bar>
   \<and> tx_priority (- (2 ^ 1024)) (PyFloat (Finite (1 / 2))) = Inl OverflowError
   \<and> \<not> overflow_threshold \<le> \<bar>of_int 2\<bar>
   \<and> (\<exists>priority. tx_priority 2 (PyFloat (Finite 1)) = Inr priority)"
  using tx_priority_failures [of "PyInt 7" 1]
    tx_priority_failures [of "PyFloat (Finite (1 / 2))" "- (2 ^ 1024)"]
    tx_priority_failures [of "PyFloat (Finite 1)" 2]
  by (simp add: overflow_threshold_def)

text \<open>
  C9 as stated fails: a zero size is not the only failing input, since
  \<open>tx_priority(1, 2**1024)\<close> raises \<open>OverflowError\<close>.
\<close>

theorem tx_priority_large_fee_raises:
  "(1 :: int) \<noteq> 0 \<and> tx_priority 1 (PyInt (2 ^ 1024)) = Inl OverflowError"
proof -
  have "int_truediv (2 ^ 1024) 1 = Inl OverflowError"
    by (rule int_truediv_overflow) simp_all
  then show ?thesis by (simp add: tx_priority_def)
qed

section \<open>Properties of \<open>calculate_sats\<close>\<close>

lemma float_BTC_TO_SATS: "float_of_int BTC_TO_SATS = Inr (Finite 100000000)"
  unfolding float_of_int_def BTC_TO_SATS_def
  by (simp, subst round_double_pos [of 26]) (simp_all add: round_eval)

lemma lit_0_29: "float_lit 29 100 = Finite (5224175567749775 / 2 ^ 54)"
  unfolding float_lit_def
  by (subst round_double_pos [of "- 2"]) (simp_all add: round_eval)

lemma product_0_29:
  "float_mul (Finite (5224175567749775 / 2 ^ 54)) (Finite 100000000)
     = Finite (7784628223999999 / 2 ^ 28)"
  by (simp, subst round_double_pos [of 24]) (simp_all add: round_eval)

text \<open>
  C7, as amended. For every finite BTC amount \<open>x >= 0\<close> whose floating-point product
  \<open>x * 100000000\<close> does not overflow (the exact product is below \<open>2^1024 -
  2^970\<close>), \<open>calculate_sats(x)\<close> is the floor of that floating-point product: the
  product is not negative, so truncation toward zero is the floor. When the product
  overflows to infinity, \<open>calculate_sats\<close> raises \<open>OverflowError\<close>.
\<close>

theorem calculate_sats_floor:
  "(0 \<le> x \<longrightarrow> x * 100000000 < overflow_threshold \<longrightarrow>
      (\<exists>p. float_mul (Finite x) (Finite 100000000) = Finite p \<and> 0 \<le> p
           \<and> calculate_sats (Finite x) = Inr \<lfloor>p\<rfloor>))
   \<and> (0 \<le> x \<longrightarrow> overflow_threshold \<le> x * 100000000 \<longrightarrow>
        float_mul (Finite x) (Finite 100000000) = PInf
        \<and> calculate_sats (Finite x) = Inl OverflowError)"
proof (intro conjI impI)
  assume x: "0 \<le> x" and fits: "x * 100000000 < overflow_threshold"
  then have "\<bar>x * 100000000\<bar> < 2 ^ 1024 - 2 ^ 970"
    by (simp add: overflow_threshold_def)
  from round_double_finite [OF this] x
  obtain p where p: "round_double (x * 100000000) = Finite p" "0 \<le> p" by auto
  then have "calculate_sats (Finite x) = Inr \<lfloor>p\<rfloor>"
    by (simp add: calculate_sats_def float_BTC_TO_SATS truncate_def)
  with p show "\<exists>p. float_mul (Finite x) (Finite 100000000) = Finite p \<and> 0 \<le> p
           \<and> calculate_sats (Finite x) = Inr \<lfloor>p\<rfloor>"
    by simp
next
  assume x: "0 \<le> x" and big: "overflow_threshold \<le> x * 100000000"
  then have "2 ^ 1024 - 2 ^ 970 \<le> \<bar>x * 100000000\<bar>"
    by (simp add: overflow_threshold_def)
  from round_double_overflow [OF this] big
  have inf: "round_double (x * 100000000) = PInf"
    by (auto simp: overflow_threshold_def split: if_splits)
  then show "float_mul (Finite x) (Finite 100000000) = PInf" by simp
  from inf show "calculate_sats (Finite x) = Inl OverflowError"
    by (simp add: calculate_sats_def float_BTC_TO_SATS)
qed

theorem calculate_sats_floor_witness:
  "(0 :: rat) \<le> 5224175567749775 / 2 ^ 54
   \<and> (5224175567749775 / 2 ^ 54) * 100000000 < overflow_threshold
   \<and> calculate_sats (float_lit 29 100) = Inr 28999999
   \<and> (0 :: rat) \<le> 2 ^ 1023
   \<and> overflow_threshold \<le> 2 ^ 1023 * 100000000
   \<and> calculate_sats (Finite (2 ^ 1023)) = Inl OverflowError"
proof -
  have 1: "(0 :: rat) \<le> 5224175567749775 / 2 ^ 54" by simp
  have 2: "(5224175567749775 / 2 ^ 54) * 100000000 < overflow_threshold"
    by (simp add: overflow_threshold_def)
  from calculate_sats_floor [of "5224175567749775 / 2 ^ 54"] 1 2
  obtain p where p: "float_mul (Finite (5224175567749775 / 2 ^ 54)) (Finite 100000000) = Finite p"
    and res: "calculate_sats (Finite (5224175567749775 / 2 ^ 54)) = Inr \<lfloor>p\<rfloor>"
    by (auto simp del: float_mul.simps)
  from p have "p = 7784628223999999 / 2 ^ 28" unfolding product_0_29 by simp
  with res have 3: "calculate_sats (float_lit 29 100) = Inr 28999999"
    by (simp add: lit_0_29 floor_rat_numeral_div)
  have 4: "(0 :: rat) \<le> 2 ^ 1023" by simp
  have 5: "overflow_threshold \<le> 2 ^ 1023 * 100000000"
    by (simp add: overflow_threshold_def)
  from calculate_sats_floor [of "2 ^ 1023"] 4 5
  have 6: "calculate_sats (Finite (2 ^ 1023)) = Inl OverflowError"
    by blast
  from 1 2 3 4 5 6 show ?thesis by (intro conjI)
qed

text \<open>
  C7 as stated, for every amount \<open>x >= 0\<close>, fails: for \<open>x = 2.0**1000\<close> the product
  is infinite and \<open>int\<close> raises.
\<close>

theorem calculate_sats_overflow:
  "float_ge (Finite (2 ^ 1000)) (Finite 0)
   \<and> calculate_sats (Finite (2 ^ 1000)) = Inl OverflowError"
proof -
  have "(2 ^ 1024 - 2 ^ 970 :: rat) \<le> \<bar>2 ^ 1000 * 100000000\<bar>" by simp
  from round_double_overflow [OF this]
  have "round_double (2 ^ 1000 * 100000000) = PInf" by simp
  then show ?thesis
    by (simp add: calculate_sats_def float_BTC_TO_SATS float_ge_def)
qed

section \<open>Properties of \<open>halving_schedule\<close>\<close>

lemma reward_nonneg:
  assumes "0 \<le> h"
  shows "pow2 (h div halving_interval) = Inr (PyInt (2 ^ nat (h div 210000)))
         \<and> py_floordiv base_reward (PyInt (2 ^ nat (h div 210000)))
           = Inr (PyInt \<lfloor>(5000000000 :: rat) / 2 ^ nat (h div 210000)\<rfloor>)"
proof -
  have "0 \<le> h div 210000" using assms by simp
  moreover have "\<lfloor>(5000000000 :: rat) / 2 ^ nat (h div 210000)\<rfloor> = 5000000000 div 2 ^ nat (h div 210000)"
    using floor_divide_of_int_eq [of 5000000000 "2 ^ nat (h div 210000)", where ?'a = rat]
    by simp
  ultimately show ?thesis
    by (simp add: pow2_def halving_interval_def base_reward_def BTC_TO_SATS_def)
qed

lemma halving_loop_nonneg:
  "\<forall>h\<in>set blocks. 0 \<le> h \<Longrightarrow>
   halving_loop result blocks =
     Inr (result ++ map_of (rev (map (\<lambda>h. (h, PyInt \<lfloor>(5000000000 :: rat) / 2 ^ nat (h div 210000)\<rfloor>)) blocks)))"
proof (induction blocks arbitrary: result)
  case Nil
  then show ?case by simp
next
  case (Cons b bs)
  then have "0 \<le> b" and bs: "\<forall>h\<in>set bs. 0 \<le> h" by simp_all
  let ?f = "\<lambda>h. (h, PyInt \<lfloor>(5000000000 :: rat) / 2 ^ nat (h div 210000)\<rfloor>)"
  have "halving_loop result (b # bs) = halving_loop (result(b \<mapsto> snd (?f b))) bs"
    using reward_nonneg [OF \<open>0 \<le> b\<close>] by (simp add: Let_def)
  also have "\<dots> = Inr (result(b \<mapsto> snd (?f b)) ++ map_of (rev (map ?f bs)))"
    by (rule Cons.IH [OF bs])
  also have "result(b \<mapsto> snd (?f b)) ++ map_of (rev (map ?f bs))
      = result ++ map_of (rev (map ?f (b # bs)))"
  proof -
    have "map_of (rev (map ?f (b # bs))) = [b \<mapsto> snd (?f b)] ++ map_of (rev (map ?f bs))"
      by simp
    then show ?thesis
      by (simp add: map_add_assoc [symmetric])
  qed
  finally show ?case .
qed

text \<open>
  C1, as amended. For every list of non-negative integer block heights,
  \<open>halving_schedule\<close> returns a mapping with one entry per distinct input height,
  where each height \<open>h\<close> maps to the integer \<open>floor(50 * 100000000 / 2^(h div
  210000))\<close>; \<open>halving_schedule([0]) == {0: 5000000000}\<close>,
  \<open>halving_schedule([210000]) == {210000: 2500000000}\<close> and
  \<open>halving_schedule([420000]) == {420000: 1250000000}\<close>.
\<close>

theorem halving_schedule_nonneg:
  "((\<forall>h\<in>set blocks. 0 \<le> h) \<longrightarrow>
      (\<exists>m. halving_schedule blocks = Inr m \<and> dom m = set blocks
         \<and> (\<forall>h\<in>set blocks. m h = Some (PyInt \<lfloor>(50 * 100000000 :: rat) / 2 ^ nat (h div 210000)\<rfloor>))))
   \<and> halving_schedule [0] = Inr [0 \<mapsto> PyInt 5000000000]
   \<and> halving_schedule [210000] = Inr [210000 \<mapsto> PyInt 2500000000]
   \<and> halving_schedule [420000] = Inr [420000 \<mapsto> PyInt 1250000000]"
proof (intro conjI impI)
  let ?f = "\<lambda>h. (h, PyInt \<lfloor>(5000000000 :: rat) / 2 ^ nat (h div 210000)\<rfloor>)"
  assume nonneg: "\<forall>h\<in>set blocks. 0 \<le> h"
  define m where "m = map_of (rev (map ?f blocks))"
  have run: "halving_schedule blocks = Inr m"
    unfolding halving_schedule_def m_def using halving_loop_nonneg [OF nonneg, of Map.empty]
    by simp
  have "dom m = set blocks"
    unfolding m_def by (simp add: dom_map_of_conv_image_fst image_image)
  moreover have "\<forall>h\<in>set blocks. m h = Some (snd (?f h))"
  proof
    fix h assume "h \<in> set blocks"
    then have "(h, snd (?f h)) \<in> set (rev (map ?f blocks))" by auto
    then obtain v where v: "m h = Some v" unfolding m_def
      by (metis (no_types, lifting) weak_map_of_SomeI)
    then have "(h, v) \<in> set (rev (map ?f blocks))"
      unfolding m_def by (rule map_of_SomeD)
    then have "v = snd (?f h)" by auto
    with v show "m h = Some (snd (?f h))" by simp
  qed
  ultimately show "\<exists>m. halving_schedule blocks = Inr m \<and> dom m = set blocks
         \<and> (\<forall>h\<in>set blocks. m h = Some (PyInt \<lfloor>(50 * 100000000 :: rat) / 2 ^ nat (h div 210000)\<rfloor>))"
    using run by simp
qed (simp_all add: halving_schedule_def Let_def pow2_def halving_interval_def base_reward_def
       BTC_TO_SATS_def)

theorem halving_schedule_nonneg_witness:
  "(0::int) \<le> 630000 \<and> (0::int) \<le> 0
   \<and> (\<exists>m. halving_schedule [630000, 0, 630000] = Inr m \<and> dom m = {0, 630000}
          \<and> m 630000 = Some (PyInt 625000000) \<and> m 0 = Some (PyInt 5000000000))"
  using halving_schedule_nonneg [of "[630000, 0, 630000]"]
  by (auto simp: floor_rat_numeral_div)

text \<open>
  For a negative height the exponent is negative and \<open>2 ** halvings\<close> is a float.
  At height \<open>-225750000\<close> the exponent is \<open>-1075\<close>, the power underflows to
  \<open>0.0\<close>, and the floor division raises.
\<close>

lemma pow2_underflow: "pow2 (- 1075) = Inr (PyFloat (Finite 0))"
proof -
  have "\<exists>d. float_of_int (- 1075) = Inr (Finite d) \<and> d \<noteq> 0"
    by (rule float_of_int_finite) simp_all
  moreover have "round_double (2 powi (- 1075)) = Finite 0"
    by (simp add: round_double_def rounded_abs_def ilog2_eqI [of "- 1075"] round_eval)
  ultimately show ?thesis by (auto simp: pow2_def)
qed

lemma float_base_reward: "float_of_int base_reward = Inr (Finite 5000000000)"
  unfolding float_of_int_def base_reward_def BTC_TO_SATS_def
  by (simp, subst round_double_pos [of 32]) (simp_all add: round_eval)

text \<open>
  C1 as stated, for every list of integers, fails: \<open>halving_schedule([-225750000])\<close>
  returns no mapping.
\<close>

theorem halving_schedule_negative_height_raises:
  "halving_schedule [- 225750000] = Inl ZeroDivisionError"
  by (simp add: halving_schedule_def Let_def halving_interval_def pow2_underflow float_base_reward)

end
